theory Spec2Isabelle
  imports Main "HOL-Library.Char_ord" "HOL-Library.List_Lexorder" "HOL-Library.Code_Target_Nat"
begin

section \<open>Strings as the scripts use them\<close>

text \<open>
  A JavaScript string is a sequence of UTF-16 code units; the model is \<open>string\<close>, a list
  of 8-bit characters, so it covers the strings all of whose code units are below 256.
  The relational operators of JavaScript on two strings compare code units from the left
  and rank a proper prefix first: that is the order \<open><\<close> of \<open>HOL-Library.List_Lexorder\<close>
  over the character order of \<open>HOL-Library.Char_ord\<close>.
\<close>

definition isWhiteSpace :: "char \<Rightarrow> bool" where
  \<comment> \<open>WhiteSpace and LineTerminator code units below 256: TAB, LF, VT, FF, CR, SP, NBSP.\<close>
  "isWhiteSpace c = (of_char c \<in> {9, 10, 11, 12, 13, 32, 160 :: nat})"

definition trim :: "string \<Rightarrow> string" where
  \<comment> \<open>\<open>String.prototype.trim\<close>\<close>
  "trim s = rev (dropWhile isWhiteSpace (rev (dropWhile isWhiteSpace s)))"

fun splitOn :: "char \<Rightarrow> string \<Rightarrow> string list" where
  \<comment> \<open>\<open>s.split(c)\<close> for a separator of one code unit: never the empty array\<close>
  "splitOn c [] = [[]]"
| "splitOn c (x # xs) =
     (if x = c then [] # splitOn c xs
      else (case splitOn c xs of [] \<Rightarrow> [[x]] | p # ps \<Rightarrow> (x # p) # ps))"

fun replaceFirst :: "char \<Rightarrow> char \<Rightarrow> string \<Rightarrow> string" where
  \<comment> \<open>\<open>s.replace(c, d)\<close> with a string pattern: only the first occurrence is replaced\<close>
  "replaceFirst c d [] = []"
| "replaceFirst c d (x # xs) = (if x = c then d # xs else x # replaceFirst c d xs)"

section \<open>Number(part) on a dot-separated component\<close>

text \<open>
  \<open>parseVersion\<close> applies \<open>Number\<close> to each dot-separated component and keeps the value
  when \<open>Number.isInteger\<close> holds. \<open>Number\<close> on a string trims white space, reads the
  empty string as 0, a run of decimal digits with an optional exponent as a decimal
  literal, and \<open>0x\<close>, \<open>0o\<close>, \<open>0b\<close> (either case) followed by digits as a hexadecimal,
  octal or binary literal; anything else is NaN. A component holds no \<open>.\<close>, \<open>+\<close> or \<open>-\<close>
  (they are split off before), so fractions, signs and negative exponents do not occur
  and every value is a non-negative integer, \<open>Infinity\<close> or NaN. The value is a double:
  \<open>toDouble\<close> rounds an integer to 53 significant bits, ties to even, and overflows to
  \<open>Infinity\<close> (here \<open>None\<close>) from \<open>2 ^ 1024\<close> on.
\<close>

fun bitLength :: "nat \<Rightarrow> nat" where
  "bitLength n = (if n = 0 then 0 else Suc (bitLength (n div 2)))"

declare bitLength.simps [simp del]

definition toDouble :: "nat \<Rightarrow> nat option" where
  "toDouble n =
     (if n < 2 ^ 53 then Some n
      else
        let e = bitLength n - 53;
            q = n div 2 ^ e;
            r = n mod 2 ^ e;
            half = 2 ^ (e - 1);
            q' = (if half < r \<or> (r = half \<and> odd q) then q + 1 else q);
            v = q' * 2 ^ e
        in if v < 2 ^ 1024 then Some v else None)"

definition digitValue :: "char \<Rightarrow> nat option" where
  "digitValue c =
     (let k = (of_char c :: nat) in
      if 48 \<le> k \<and> k \<le> 57 then Some (k - 48)
      else if 97 \<le> k \<and> k \<le> 102 then Some (k - 87)
      else if 65 \<le> k \<and> k \<le> 70 then Some (k - 55)
      else None)"

fun digitsValue :: "nat \<Rightarrow> nat \<Rightarrow> string \<Rightarrow> nat option" where
  \<comment> \<open>the value of a run of digits of the given base, read from the left onto an accumulator\<close>
  "digitsValue base acc [] = Some acc"
| "digitsValue base acc (c # cs) =
     (case digitValue c of
        None \<Rightarrow> None
      | Some d \<Rightarrow> if d < base then digitsValue base (acc * base + d) cs else None)"

definition literalValue :: "nat \<Rightarrow> string \<Rightarrow> nat option" where
  \<comment> \<open>a literal needs at least one digit\<close>
  "literalValue base ds = (if ds = [] then None else digitsValue base 0 ds)"

definition decimalValue :: "string \<Rightarrow> nat option" where
  \<comment> \<open>digits, then optionally \<open>e\<close> or \<open>E\<close> and the digits of the exponent\<close>
  "decimalValue s =
     (let mant = takeWhile (\<lambda>c. c \<noteq> CHR ''e'' \<and> c \<noteq> CHR ''E'') s;
          rest = dropWhile (\<lambda>c. c \<noteq> CHR ''e'' \<and> c \<noteq> CHR ''E'') s
      in case rest of
           [] \<Rightarrow> literalValue 10 mant
         | _ # ex \<Rightarrow>
             (case (literalValue 10 mant, literalValue 10 ex) of
                (Some m, Some k) \<Rightarrow> Some (m * 10 ^ k)
              | _ \<Rightarrow> None))"

definition numberOfPart :: "string \<Rightarrow> nat option" where
  \<comment> \<open>\<open>Number(part)\<close> kept when \<open>Number.isInteger\<close>; \<open>None\<close> stands for NaN\<close>
  "numberOfPart part =
     (let t = trim part in
      if t = [] then Some 0
      else
        (case (case t of
                 a # b # ds \<Rightarrow>
                   if a = CHR ''0'' \<and> (b = CHR ''x'' \<or> b = CHR ''X'') then literalValue 16 ds
                   else if a = CHR ''0'' \<and> (b = CHR ''o'' \<or> b = CHR ''O'') then literalValue 8 ds
                   else if a = CHR ''0'' \<and> (b = CHR ''b'' \<or> b = CHR ''B'') then literalValue 2 ds
                   else decimalValue t
               | _ \<Rightarrow> decimalValue t) of
           None \<Rightarrow> None
         | Some n \<Rightarrow> toDouble n))"

section \<open>VersionOrdering\<close>

record ParsedVersion =
  numericParts :: "nat list option"
  suffix :: string

definition stripLeadingV :: "string \<Rightarrow> string" where
  "stripLeadingV version =
     (case version of c # rest \<Rightarrow> if c = CHR ''v'' then rest else version | [] \<Rightarrow> [])"

definition parseVersion :: "string \<Rightarrow> ParsedVersion" where
  "parseVersion version =
     (let normalized = stripLeadingV version;
          parts = take 2 (splitOn CHR ''-'' (replaceFirst CHR ''+'' CHR ''-'' normalized));
          numericStr = (case parts of p # _ \<Rightarrow> p | [] \<Rightarrow> []);
          suffix = (case parts of _ # s # _ \<Rightarrow> s | _ \<Rightarrow> [])
      in if numericStr = [] then \<lparr>numericParts = None, suffix = suffix\<rparr>
         else
           let numericParts = map numberOfPart (splitOn CHR ''.'' numericStr)
           in \<lparr>numericParts =
                 (if None \<in> set numericParts then None else Some (map the numericParts)),
               suffix = suffix\<rparr>)"

definition partAt :: "nat list \<Rightarrow> nat \<Rightarrow> nat" where
  \<comment> \<open>\<open>parts[i] ?? 0\<close>\<close>
  "partAt parts i = (if i < length parts then parts ! i else 0)"

function partsLoop :: "nat list \<Rightarrow> nat list \<Rightarrow> nat \<Rightarrow> nat \<Rightarrow> int option" where
  \<comment> \<open>the \<open>for\<close> loop of \<open>compareVersions\<close> from index \<open>i\<close>; \<open>None\<close> when it falls through\<close>
  "partsLoop as bs mx i =
     (if i < mx then
        (let aPart = partAt as i; bPart = partAt bs i
         in if aPart < bPart then Some (- 1)
            else if aPart > bPart then Some 1
            else partsLoop as bs mx (i + 1))
      else None)"
  by pat_completeness auto
termination
  by (relation "measure (\<lambda>(as, bs, mx, i). mx - i)") auto

declare partsLoop.simps [simp del]

definition compareVersions :: "string \<Rightarrow> string \<Rightarrow> int" where
  "compareVersions a b =
     (if a = b then 0
      else
        let parsedA = parseVersion a; parsedB = parseVersion b
        in case (numericParts parsedA, numericParts parsedB) of
             (Some as, Some bs) \<Rightarrow>
               (case partsLoop as bs (max (length as) (length bs)) 0 of
                  Some r \<Rightarrow> r
                | None \<Rightarrow>
                    if suffix parsedA = suffix parsedB then 0
                    else if suffix parsedA = [] then 1
                    else if suffix parsedB = [] then - 1
                    else if suffix parsedA < suffix parsedB then - 1 else 1)
           | _ \<Rightarrow> if a < b then - 1 else 1)"

definition shouldUpdate :: "string \<Rightarrow> string \<Rightarrow> bool" where
  "shouldUpdate current latest = (compareVersions current latest < 0)"

subsection \<open>The ordering as the specification words it\<close>

definition unparsed :: "string \<Rightarrow> bool" where
  "unparsed v = (numericParts (parseVersion v) = None)"

definition padLeft :: "nat \<Rightarrow> nat list \<Rightarrow> nat list" where
  "padLeft n xs = replicate (n - length xs) 0 @ xs"

definition padRight :: "nat \<Rightarrow> nat list \<Rightarrow> nat list" where
  "padRight n xs = xs @ replicate (n - length xs) 0"

fun pairwiseCompare :: "nat list \<Rightarrow> nat list \<Rightarrow> int" where
  "pairwiseCompare (x # xs) (y # ys) =
     (if x < y then - 1 else if y < x then 1 else pairwiseCompare xs ys)"
| "pairwiseCompare _ _ = 0"

definition suffixCompare :: "string \<Rightarrow> string \<Rightarrow> int" where
  "suffixCompare s t =
     (if s = t then 0 else if s = [] then 1 else if t = [] then - 1
      else if s < t then - 1 else 1)"

definition rawCompare :: "string \<Rightarrow> string \<Rightarrow> int" where
  "rawCompare a b = (if a < b then - 1 else if a = b then 0 else 1)"

definition compareAsSpecified ::
  "(nat \<Rightarrow> nat list \<Rightarrow> nat list) \<Rightarrow> string \<Rightarrow> string \<Rightarrow> int" where
  "compareAsSpecified pad a b =
     (case (numericParts (parseVersion a), numericParts (parseVersion b)) of
        (Some as, Some bs) \<Rightarrow>
          (let n = max (length as) (length bs);
               r = pairwiseCompare (pad n as) (pad n bs)
           in if r \<noteq> 0 then r
              else suffixCompare (suffix (parseVersion a)) (suffix (parseVersion b)))
      | _ \<Rightarrow> rawCompare a b)"

definition seqLess :: "(nat \<Rightarrow> nat) \<Rightarrow> (nat \<Rightarrow> nat) \<Rightarrow> bool" where
  "seqLess f g = (\<exists>k. (\<forall>j<k. f j = g j) \<and> f k < g k)"

definition sufLe :: "string \<Rightarrow> string \<Rightarrow> bool" where
  "sufLe s t = (s = t \<or> (s \<noteq> [] \<and> (t = [] \<or> s < t)))"

section \<open>Properties of VersionOrdering\<close>

lemma seqLess_trans: "seqLess f g \<Longrightarrow> seqLess g h \<Longrightarrow> seqLess f h"
proof -
  assume "seqLess f g" "seqLess g h"
  then obtain k l where k: "\<forall>j<k. f j = g j" "f k < g k"
    and l: "\<forall>j<l. g j = h j" "g l < h l"
    unfolding seqLess_def by blast
  let ?m = "min k l"
  have "\<forall>j<?m. f j = h j" using k(1) l(1) by simp
  moreover have "f ?m < h ?m"
  proof (cases "k < l")
    case True then show ?thesis using k(2) l(1) by (simp add: min_def)
  next
    case False
    show ?thesis
    proof (cases "k = l")
      case True then show ?thesis using k(2) l(2) by simp
    next
      case False
      with \<open>\<not> k < l\<close> have "l < k" by simp
      then show ?thesis using k(1) l(2) by (simp add: min_def)
    qed
  qed
  ultimately show ?thesis unfolding seqLess_def by blast
qed

lemma seqLess_cong_left: "\<forall>j. f j = g j \<Longrightarrow> seqLess g h \<Longrightarrow> seqLess f h"
  unfolding seqLess_def by simp

lemma seqLess_cong_right: "\<forall>j. g j = h j \<Longrightarrow> seqLess f g \<Longrightarrow> seqLess f h"
  unfolding seqLess_def by simp

lemma seqLess_asym: "seqLess f g \<Longrightarrow> \<not> seqLess g f"
proof
  assume "seqLess f g" "seqLess g f"
  then obtain k l where k: "\<forall>j<k. f j = g j" "f k < g k"
    and l: "\<forall>j<l. g j = f j" "g l < f l"
    unfolding seqLess_def by blast
  show False
  proof (cases "k < l")
    case True with l(1) k(2) show False by simp
  next
    case False
    show False
    proof (cases "k = l")
      case True with k(2) l(2) show False by simp
    next
      case False with \<open>\<not> k < l\<close> have "l < k" by simp
      with k(1) l(2) show False by simp
    qed
  qed
qed

lemma partsLoop_None:
  "partsLoop as bs m i = None \<longleftrightarrow> (\<forall>j. i \<le> j \<and> j < m \<longrightarrow> partAt as j = partAt bs j)"
proof (induction as bs m i rule: partsLoop.induct)
  case (1 as bs mx i)
  show ?case
  proof (cases "i < mx")
    case False
    then show ?thesis by (simp add: partsLoop.simps [of as bs mx i])
  next
    case True
    show ?thesis
    proof (cases "partAt as i = partAt bs i")
      case False
      then show ?thesis using True
        by (auto simp: partsLoop.simps [of as bs mx i] Let_def)
    next
      case eq: True
      have "partsLoop as bs mx i = partsLoop as bs mx (i + 1)"
        using True eq by (simp add: partsLoop.simps [of as bs mx i])
      moreover have "partsLoop as bs mx (i + 1) = None \<longleftrightarrow>
          (\<forall>j. i + 1 \<le> j \<and> j < mx \<longrightarrow> partAt as j = partAt bs j)"
        using "1.IH" True eq by simp
      moreover have "(\<forall>j. i + 1 \<le> j \<and> j < mx \<longrightarrow> partAt as j = partAt bs j) \<longleftrightarrow>
          (\<forall>j. i \<le> j \<and> j < mx \<longrightarrow> partAt as j = partAt bs j)"
      proof (intro iffI allI impI)
        fix j assume h: "\<forall>j. i + 1 \<le> j \<and> j < mx \<longrightarrow> partAt as j = partAt bs j" and j: "i \<le> j \<and> j < mx"
        show "partAt as j = partAt bs j"
        proof (cases "j = i")
          case True then show ?thesis using eq by simp
        next
          case False with j have "i + 1 \<le> j \<and> j < mx" by simp
          with h show ?thesis by blast
        qed
      next
        fix j assume h: "\<forall>j. i \<le> j \<and> j < mx \<longrightarrow> partAt as j = partAt bs j" and j: "i + 1 \<le> j \<and> j < mx"
        then show "partAt as j = partAt bs j" by simp
      qed
      ultimately show ?thesis by simp
    qed
  qed
qed

lemma partsLoop_neg:
  "partsLoop as bs m i = Some (- 1) \<longleftrightarrow>
     (\<exists>k. i \<le> k \<and> k < m \<and> (\<forall>j. i \<le> j \<and> j < k \<longrightarrow> partAt as j = partAt bs j)
        \<and> partAt as k < partAt bs k)"
proof (induction as bs m i rule: partsLoop.induct)
  case (1 as bs mx i)
  show ?case
  proof (cases "i < mx")
    case False
    then show ?thesis by (auto simp add: partsLoop.simps [of as bs mx i])
  next
    case True
    consider (lt) "partAt as i < partAt bs i" | (gt) "partAt as i > partAt bs i"
      | (eq) "partAt as i = partAt bs i" by linarith
    then show ?thesis
    proof cases
      case lt
      have "partsLoop as bs mx i = Some (- 1)"
        using True lt by (simp add: partsLoop.simps [of as bs mx i])
      moreover have "\<exists>k. i \<le> k \<and> k < mx \<and> (\<forall>j. i \<le> j \<and> j < k \<longrightarrow> partAt as j = partAt bs j)
        \<and> partAt as k < partAt bs k"
        using True lt by (intro exI [of _ i]) simp
      ultimately show ?thesis by simp
    next
      case gt
      have "partsLoop as bs mx i = Some 1"
        using True gt by (simp add: partsLoop.simps [of as bs mx i])
      moreover have "\<not> (\<exists>k. i \<le> k \<and> k < mx \<and> (\<forall>j. i \<le> j \<and> j < k \<longrightarrow> partAt as j = partAt bs j)
        \<and> partAt as k < partAt bs k)"
      proof
        assume "\<exists>k. i \<le> k \<and> k < mx \<and> (\<forall>j. i \<le> j \<and> j < k \<longrightarrow> partAt as j = partAt bs j)
        \<and> partAt as k < partAt bs k"
        then obtain k where k: "i \<le> k" "\<forall>j. i \<le> j \<and> j < k \<longrightarrow> partAt as j = partAt bs j"
          "partAt as k < partAt bs k" by blast
        show False
        proof (cases "k = i")
          case True with k(3) gt show False by simp
        next
          case False with k(1) have "i < k" by simp
          with k(2) gt show False by auto
        qed
      qed
      ultimately show ?thesis by simp
    next
      case eq
      have step: "partsLoop as bs mx i = partsLoop as bs mx (i + 1)"
        using True eq by (simp add: partsLoop.simps [of as bs mx i])
      have ih: "partsLoop as bs mx (i + 1) = Some (- 1) \<longleftrightarrow>
          (\<exists>k. i + 1 \<le> k \<and> k < mx \<and> (\<forall>j. i + 1 \<le> j \<and> j < k \<longrightarrow> partAt as j = partAt bs j)
            \<and> partAt as k < partAt bs k)"
        using "1.IH" True eq by simp
      have "(\<exists>k. i + 1 \<le> k \<and> k < mx \<and> (\<forall>j. i + 1 \<le> j \<and> j < k \<longrightarrow> partAt as j = partAt bs j)
            \<and> partAt as k < partAt bs k) \<longleftrightarrow>
         (\<exists>k. i \<le> k \<and> k < mx \<and> (\<forall>j. i \<le> j \<and> j < k \<longrightarrow> partAt as j = partAt bs j)
            \<and> partAt as k < partAt bs k)" (is "?L \<longleftrightarrow> ?R")
      proof
        assume ?L
        then obtain k where k: "i + 1 \<le> k" "k < mx"
          "\<forall>j. i + 1 \<le> j \<and> j < k \<longrightarrow> partAt as j = partAt bs j" "partAt as k < partAt bs k"
          by blast
        have "\<forall>j. i \<le> j \<and> j < k \<longrightarrow> partAt as j = partAt bs j"
        proof (intro allI impI)
          fix j assume j: "i \<le> j \<and> j < k"
          show "partAt as j = partAt bs j"
          proof (cases "j = i")
            case True then show ?thesis using eq by simp
          next
            case False with j have "i + 1 \<le> j \<and> j < k" by simp
            with k(3) show ?thesis by blast
          qed
        qed
        with k show ?R by (intro exI [of _ k]) simp
      next
        assume ?R
        then obtain k where k: "i \<le> k" "k < mx"
          "\<forall>j. i \<le> j \<and> j < k \<longrightarrow> partAt as j = partAt bs j" "partAt as k < partAt bs k"
          by blast
        have "k \<noteq> i" using k(4) eq by auto
        with k(1) have "i + 1 \<le> k" by simp
        moreover have "\<forall>j. i + 1 \<le> j \<and> j < k \<longrightarrow> partAt as j = partAt bs j"
          using k(3) by simp
        ultimately show ?L using k(2,4) by (intro exI [of _ k]) simp
      qed
      with step ih show ?thesis by simp
    qed
  qed
qed

lemma partsLoop_swap:
  "partsLoop bs as m i = map_option uminus (partsLoop as bs m i)"
proof (induction as bs m i rule: partsLoop.induct)
  case (1 as bs mx i)
  show ?case
  proof (cases "i < mx")
    case False
    then show ?thesis
      by (simp add: partsLoop.simps [of as bs mx i] partsLoop.simps [of bs as mx i])
  next
    case True
    consider (lt) "partAt as i < partAt bs i" | (gt) "partAt as i > partAt bs i"
      | (eq) "partAt as i = partAt bs i" by linarith
    then show ?thesis
    proof cases
      case lt
      then show ?thesis using True
        by (simp add: partsLoop.simps [of as bs mx i] partsLoop.simps [of bs as mx i])
    next
      case gt
      then show ?thesis using True
        by (simp add: partsLoop.simps [of as bs mx i] partsLoop.simps [of bs as mx i])
    next
      case eq
      then show ?thesis using True "1.IH"
        by (simp add: partsLoop.simps [of as bs mx i] partsLoop.simps [of bs as mx i])
    qed
  qed
qed

lemma partsLoop_range: "partsLoop as bs m i = Some r \<Longrightarrow> r = - 1 \<or> r = 1"
proof (induction as bs m i rule: partsLoop.induct)
  case (1 as bs mx i)
  then show ?case
    by (simp add: partsLoop.simps [of as bs mx i] Let_def split: if_splits)
qed

lemma partAt_beyond: "length xs \<le> j \<Longrightarrow> partAt xs j = 0"
  by (simp add: partAt_def)

lemma loop0_None:
  "partsLoop as bs (max (length as) (length bs)) 0 = None \<longleftrightarrow> (\<forall>j. partAt as j = partAt bs j)"
proof -
  have "(\<forall>j. j < max (length as) (length bs) \<longrightarrow> partAt as j = partAt bs j)
      \<longleftrightarrow> (\<forall>j. partAt as j = partAt bs j)"
  proof (intro iffI allI impI)
    fix j assume h: "\<forall>j. j < max (length as) (length bs) \<longrightarrow> partAt as j = partAt bs j"
    show "partAt as j = partAt bs j"
    proof (cases "j < max (length as) (length bs)")
      case True with h show ?thesis by blast
    next
      case False then show ?thesis by (simp add: partAt_beyond)
    qed
  next
    fix j assume "\<forall>j. partAt as j = partAt bs j"
    then show "partAt as j = partAt bs j" by blast
  qed
  then show ?thesis by (simp add: partsLoop_None)
qed

lemma loop0_neg:
  "partsLoop as bs (max (length as) (length bs)) 0 = Some (- 1)
     \<longleftrightarrow> seqLess (partAt as) (partAt bs)"
proof -
  have "(\<exists>k. k < max (length as) (length bs) \<and> (\<forall>j. j < k \<longrightarrow> partAt as j = partAt bs j)
          \<and> partAt as k < partAt bs k)
      \<longleftrightarrow> (\<exists>k. (\<forall>j<k. partAt as j = partAt bs j) \<and> partAt as k < partAt bs k)"
    (is "?L \<longleftrightarrow> ?R")
  proof
    assume ?L then show ?R by blast
  next
    assume ?R
    then obtain k where k: "\<forall>j<k. partAt as j = partAt bs j" "partAt as k < partAt bs k"
      by blast
    have "k < length bs"
    proof (rule ccontr)
      assume "\<not> k < length bs"
      then have "partAt bs k = 0" by (simp add: partAt_beyond)
      with k(2) show False by simp
    qed
    then have "k < max (length as) (length bs)" by simp
    with k show ?L by blast
  qed
  then show ?thesis by (simp add: partsLoop_neg seqLess_def)
qed

lemma loop0_pos:
  "partsLoop as bs (max (length as) (length bs)) 0 = Some 1
     \<longleftrightarrow> seqLess (partAt bs) (partAt as)"
proof -
  have "partsLoop as bs (max (length as) (length bs)) 0 = Some 1
      \<longleftrightarrow> partsLoop bs as (max (length bs) (length as)) 0 = Some (- 1)"
    by (cases "partsLoop as bs (max (length as) (length bs)) 0")
       (auto simp: partsLoop_swap [of bs as] max.commute)
  then show ?thesis by (simp add: loop0_neg)
qed

lemma sufLe_trans: "sufLe s t \<Longrightarrow> sufLe t u \<Longrightarrow> sufLe s u"
  unfolding sufLe_def by (auto dest: less_trans)

lemma cmp_le_numeric:
  assumes "numericParts (parseVersion a) = Some as" "numericParts (parseVersion b) = Some bs"
  shows "compareVersions a b \<le> 0 \<longleftrightarrow>
     seqLess (partAt as) (partAt bs) \<or>
     ((\<forall>j. partAt as j = partAt bs j) \<and> sufLe (suffix (parseVersion a)) (suffix (parseVersion b)))"
proof (cases "a = b")
  case True
  with assms have "as = bs" by simp
  with True show ?thesis by (simp add: compareVersions_def sufLe_def)
next
  case False
  let ?r = "partsLoop as bs (max (length as) (length bs)) 0"
  consider (none) "?r = None" | (neg) "?r = Some (- 1)" | (pos) "?r = Some 1"
    using partsLoop_range [of as bs "max (length as) (length bs)" 0] by (cases ?r) auto
  then show ?thesis
  proof cases
    case none
    then have eq: "\<forall>j. partAt as j = partAt bs j" by (simp add: loop0_None)
    then have "\<not> seqLess (partAt as) (partAt bs)" by (simp add: seqLess_def)
    then show ?thesis using none eq False assms
      by (auto simp: compareVersions_def Let_def sufLe_def)
  next
    case neg
    then have "seqLess (partAt as) (partAt bs)" by (simp add: loop0_neg)
    then show ?thesis using neg False assms by (simp add: compareVersions_def Let_def)
  next
    case pos
    then have gt: "seqLess (partAt bs) (partAt as)" by (simp add: loop0_pos)
    then have "\<not> seqLess (partAt as) (partAt bs)" by (blast dest: seqLess_asym)
    moreover have "\<not> (\<forall>j. partAt as j = partAt bs j)"
    proof
      assume "\<forall>j. partAt as j = partAt bs j"
      then have "\<not> seqLess (partAt bs) (partAt as)" by (simp add: seqLess_def)
      with gt show False by simp
    qed
    ultimately show ?thesis using pos False assms by (simp add: compareVersions_def Let_def)
  qed
qed

lemma cmp_le_fallback:
  assumes "unparsed a \<or> unparsed b"
  shows "compareVersions a b \<le> 0 \<longleftrightarrow> a \<le> b"
  using assms
  by (cases "numericParts (parseVersion a)"; cases "numericParts (parseVersion b)")
     (auto simp: compareVersions_def unparsed_def Let_def)

lemma cmp_trans_numeric:
  assumes "\<not> unparsed a" "\<not> unparsed b" "\<not> unparsed c"
    and "compareVersions a b \<le> 0" "compareVersions b c \<le> 0"
  shows "compareVersions a c \<le> 0"
proof -
  from assms(1-3) obtain as bs cs where p:
    "numericParts (parseVersion a) = Some as" "numericParts (parseVersion b) = Some bs"
    "numericParts (parseVersion c) = Some cs"
    by (auto simp: unparsed_def)
  let ?A = "partAt as" and ?B = "partAt bs" and ?C = "partAt cs"
  let ?sa = "suffix (parseVersion a)" and ?sb = "suffix (parseVersion b)"
    and ?sc = "suffix (parseVersion c)"
  have ab: "seqLess ?A ?B \<or> ((\<forall>j. ?A j = ?B j) \<and> sufLe ?sa ?sb)"
    using assms(4) cmp_le_numeric [OF p(1) p(2)] by simp
  have bc: "seqLess ?B ?C \<or> ((\<forall>j. ?B j = ?C j) \<and> sufLe ?sb ?sc)"
    using assms(5) cmp_le_numeric [OF p(2) p(3)] by simp
  have "seqLess ?A ?C \<or> ((\<forall>j. ?A j = ?C j) \<and> sufLe ?sa ?sc)"
  proof (cases "seqLess ?A ?B")
    case lt1: True
    show ?thesis
    proof (cases "seqLess ?B ?C")
      case True with lt1 show ?thesis by (blast intro: seqLess_trans)
    next
      case False with bc have "\<forall>j. ?B j = ?C j" by blast
      with lt1 show ?thesis by (blast intro: seqLess_cong_right)
    qed
  next
    case False
    with ab have eq1: "\<forall>j. ?A j = ?B j" and s1: "sufLe ?sa ?sb" by blast+
    show ?thesis
    proof (cases "seqLess ?B ?C")
      case True with eq1 show ?thesis by (blast intro: seqLess_cong_left)
    next
      case False
      with bc have eq2: "\<forall>j. ?B j = ?C j" and s2: "sufLe ?sb ?sc" by blast+
      from eq1 eq2 have "\<forall>j. ?A j = ?C j" by simp
      moreover from s1 s2 have "sufLe ?sa ?sc" by (rule sufLe_trans)
      ultimately show ?thesis by blast
    qed
  qed
  then show ?thesis using cmp_le_numeric [OF p(1) p(3)] by simp
qed

lemma cmp_refl: "compareVersions a a = 0"
  by (simp add: compareVersions_def)

lemma cmp_swap: "compareVersions b a = - compareVersions a b"
proof (cases "a = b")
  case True then show ?thesis by (simp add: compareVersions_def)
next
  case ne: False
  show ?thesis
  proof (cases "numericParts (parseVersion a)")
    case None
    then show ?thesis using ne
      by (cases "numericParts (parseVersion b)") (auto simp: compareVersions_def Let_def)
  next
    case a: (Some as)
    show ?thesis
    proof (cases "numericParts (parseVersion b)")
      case None
      then show ?thesis using ne a by (auto simp: compareVersions_def Let_def)
    next
      case b: (Some bs)
      show ?thesis
      proof (cases "partsLoop as bs (max (length as) (length bs)) 0")
        case None
        then have "partsLoop bs as (max (length bs) (length as)) 0 = None"
          by (simp add: partsLoop_swap [of bs as] max.commute)
        then show ?thesis using None ne a b
          by (auto simp: compareVersions_def Let_def)
      next
        case (Some r)
        then have "partsLoop bs as (max (length bs) (length as)) 0 = Some (- r)"
          by (simp add: partsLoop_swap [of bs as] max.commute)
        then show ?thesis using Some ne a b
          by (auto simp: compareVersions_def Let_def)
      qed
    qed
  qed
qed

lemma cmp_trans_fallback:
  assumes "(unparsed a \<and> unparsed b) \<or> (unparsed a \<and> unparsed c) \<or> (unparsed b \<and> unparsed c)"
    and "compareVersions a b \<le> 0" "compareVersions b c \<le> 0"
  shows "compareVersions a c \<le> 0"
proof -
  have "unparsed a \<or> unparsed b" "unparsed b \<or> unparsed c" "unparsed a \<or> unparsed c"
    using assms(1) by blast+
  then have "a \<le> b" "b \<le> c" and goal: "compareVersions a c \<le> 0 \<longleftrightarrow> a \<le> c"
    using assms(2,3) by (simp_all add: cmp_le_fallback)
  then show ?thesis by simp
qed

text \<open>
  Claim C3, as amended. \<open>compareVersions\<close> returns 0 on equal strings, and swapping the
  arguments negates the result, for all strings. It is transitive on every three strings
  that all have numeric parts and on every three of which at least two have none; when
  exactly one of the three has no numeric parts, the numeric order and the raw string
  order of the fallback are mixed and transitivity can fail.
\<close>

theorem compareVersions_order:
  "compareVersions a a = 0 \<and>
   compareVersions b a = - compareVersions a b \<and>
   ((\<not> unparsed a \<and> \<not> unparsed b \<and> \<not> unparsed c) \<or> (unparsed a \<and> unparsed b) \<or>
      (unparsed a \<and> unparsed c) \<or> (unparsed b \<and> unparsed c) \<longrightarrow>
    compareVersions a b \<le> 0 \<longrightarrow> compareVersions b c \<le> 0 \<longrightarrow> compareVersions a c \<le> 0)"
  using cmp_refl [of a] cmp_swap [of b a] cmp_trans_numeric [of a b c]
    cmp_trans_fallback [of a b c]
  by blast

theorem compareVersions_order_witness:
  "\<not> unparsed ''1.2'' \<and> \<not> unparsed ''1.10'' \<and> \<not> unparsed ''2.0-rc1'' \<and>
   compareVersions ''1.2'' ''1.10'' \<le> 0 \<and> compareVersions ''1.10'' ''2.0-rc1'' \<le> 0 \<and>
   compareVersions ''1.2'' ''2.0-rc1'' \<le> 0 \<and> compareVersions ''1.2'' ''1.2'' = 0 \<and>
   compareVersions ''1.10'' ''1.2'' = - compareVersions ''1.2'' ''1.10''"
proof -
  have h: "\<not> unparsed ''1.2''" "\<not> unparsed ''1.10''" "\<not> unparsed ''2.0-rc1''"
    "compareVersions ''1.2'' ''1.10'' \<le> 0" "compareVersions ''1.10'' ''2.0-rc1'' \<le> 0"
    by code_simp+
  show ?thesis
    using h compareVersions_order [of "''1.2''" "''1.10''" "''2.0-rc1''"] by blast
qed

text \<open>
  The claim as stated asks for transitivity on all strings. \<open>5x\<close> has no numeric parts,
  so it is compared as a raw string with both \<open>10\<close> and \<open>9\<close>, which are compared with
  each other as numbers.
\<close>

theorem compareVersions_not_transitive:
  "compareVersions ''10'' ''5x'' \<le> 0 \<and> compareVersions ''5x'' ''9'' \<le> 0 \<and>
   \<not> compareVersions ''10'' ''9'' \<le> 0"
  by code_simp

lemma padRight_nth: "length xs \<le> n \<Longrightarrow> i < n \<Longrightarrow> padRight n xs ! i = partAt xs i"
  by (simp add: padRight_def partAt_def nth_append)

lemma padRight_length: "length xs \<le> n \<Longrightarrow> length (padRight n xs) = n"
  by (simp add: padRight_def)

lemma partsLoop_pairwise:
  assumes "length as \<le> m" "length bs \<le> m" "i \<le> m"
  shows "partsLoop as bs m i =
     (let r = pairwiseCompare (drop i (padRight m as)) (drop i (padRight m bs))
      in if r = 0 then None else Some r)"
  using assms
proof (induction as bs m i rule: partsLoop.induct)
  case (1 as bs mx i)
  show ?case
  proof (cases "i < mx")
    case False
    with "1.prems" have "i = mx" by simp
    then show ?thesis using "1.prems"
      by (simp add: partsLoop.simps [of as bs mx mx] padRight_length)
  next
    case True
    have da: "drop i (padRight mx as) = partAt as i # drop (Suc i) (padRight mx as)"
      using True "1.prems" by (simp add: Cons_nth_drop_Suc [symmetric] padRight_length padRight_nth)
    have db: "drop i (padRight mx bs) = partAt bs i # drop (Suc i) (padRight mx bs)"
      using True "1.prems" by (simp add: Cons_nth_drop_Suc [symmetric] padRight_length padRight_nth)
    consider (lt) "partAt as i < partAt bs i" | (gt) "partAt as i > partAt bs i"
      | (eq) "partAt as i = partAt bs i" by linarith
    then show ?thesis
    proof cases
      case lt then show ?thesis using True
        by (simp add: partsLoop.simps [of as bs mx i] da db)
    next
      case gt then show ?thesis using True
        by (simp add: partsLoop.simps [of as bs mx i] da db)
    next
      case eq
      have "partsLoop as bs mx (i + 1) =
         (let r = pairwiseCompare (drop (i + 1) (padRight mx as)) (drop (i + 1) (padRight mx bs))
          in if r = 0 then None else Some r)"
        using "1.IH" True eq "1.prems" by simp
      then show ?thesis using True eq
        by (simp add: partsLoop.simps [of as bs mx i] da db)
    qed
  qed
qed

text \<open>
  Claim C5, as amended. For all version strings \<open>a\<close> and \<open>b\<close>: if either parse has no
  numeric parts, \<open>compareVersions a b\<close> is the raw comparison of the two original strings;
  otherwise the numeric parts are compared pairwise from the left with the shorter
  sequence padded with zeros on the right (missing trailing parts count as zero), and on
  a numeric tie the suffixes decide: equal suffixes give 0, the empty suffix ranks after
  any other, two non-empty suffixes compare as strings.
\<close>

theorem compareVersions_refines:
  "compareVersions a b = compareAsSpecified padRight a b"
proof (cases "numericParts (parseVersion a)")
  case None
  then show ?thesis by (auto simp: compareVersions_def compareAsSpecified_def rawCompare_def)
next
  case a: (Some as)
  show ?thesis
  proof (cases "numericParts (parseVersion b)")
    case None
    then show ?thesis using a
      by (auto simp: compareVersions_def compareAsSpecified_def rawCompare_def)
  next
    case b: (Some bs)
    let ?m = "max (length as) (length bs)"
    have loop: "partsLoop as bs ?m 0 =
       (let r = pairwiseCompare (padRight ?m as) (padRight ?m bs)
        in if r = 0 then None else Some r)"
      using partsLoop_pairwise [of as ?m bs 0] by simp
    show ?thesis
    proof (cases "a = b")
      case True
      with a b have "as = bs" by simp
      have "partsLoop as as (length as) 0 = None" by (simp add: partsLoop_None)
      with loop \<open>as = bs\<close> have "pairwiseCompare (padRight (length as) as) (padRight (length as) as) = 0"
        by (simp add: Let_def split: if_splits)
      then show ?thesis using True a b \<open>as = bs\<close>
        by (simp add: compareVersions_def compareAsSpecified_def suffixCompare_def)
    next
      case False
      then show ?thesis using a b loop
        by (simp add: compareVersions_def compareAsSpecified_def suffixCompare_def Let_def)
    qed
  qed
qed

theorem compareVersions_refines_witness:
  "compareVersions ''1.2'' ''1.2.0'' = 0 \<and> compareAsSpecified padRight ''1.2'' ''1.2.0'' = 0"
proof -
  have "compareVersions ''1.2'' ''1.2.0'' = 0" by code_simp
  then show ?thesis using compareVersions_refines [of "''1.2''" "''1.2.0''"] by simp
qed

text \<open>
  With the zeros on the left, as the claim words it, \<open>2\<close> would be read as \<open>0.2\<close> against
  \<open>1.5\<close>, and \<open>1.2\<close> as \<open>0.1.2\<close> against \<open>1.2.0\<close>.
\<close>

theorem compareVersions_left_padding_differs:
  "''2'' \<noteq> ''1.5'' \<and> compareVersions ''2'' ''1.5'' = 1 \<and>
   compareAsSpecified padLeft ''2'' ''1.5'' = - 1 \<and>
   compareVersions ''1.2'' ''1.2.0'' = 0 \<and> compareAsSpecified padLeft ''1.2'' ''1.2.0'' = - 1"
  by code_simp

text \<open>
  Claim C4 says that the suffix is the entire rest of the string after the first \<open>-\<close> or
  \<open>+\<close>. \<open>split("-", 2)\<close> keeps the first two pieces and drops the others, so the suffix
  ends at the next \<open>-\<close>: two release candidates that differ after it parse alike and
  compare as equal.
\<close>

theorem parseVersion_truncates_suffix:
  "parseVersion ''1.0-rc-1'' = \<lparr>numericParts = Some [1, 0], suffix = ''rc''\<rparr> \<and>
   parseVersion ''1.0-rc-2'' = \<lparr>numericParts = Some [1, 0], suffix = ''rc''\<rparr> \<and>
   compareVersions ''1.0-rc-1'' ''1.0-rc-2'' = 0 \<and> \<not> shouldUpdate ''1.0-rc-1'' ''1.0-rc-2''"
  by code_simp

end
